theory Spec2Isabelle
  imports Main
begin

section \<open>Reachable functions of an LLVM module (ReachableFunctions.cpp)\<close>

text \<open>
  The analysis computes the functions reachable from an entry function: a walk over the
  direct call graph, followed by a worklist loop that adds the targets of indirect calls
  and of callback arguments, matched by function type.

  The LLVM classes the code reads are modelled by the data the code takes from them.
  A \<open>Function*\<close> is an address (\<open>fid\<close>); the module is the list of its functions,
  each address with the function stored there, in the order \<open>for (auto& F : *m_module)\<close>
  visits them. LLVM types are uniqued, so that pointer equality of \<open>FunctionType*\<close> is
  structural equality of the type. The members \<open>m_module\<close> and \<open>m_callGraph\<close> of the
  class \<open>ReachableFunctions\<close> are the parameters \<open>M\<close> and \<open>cg\<close> of the functions
  below; no member function writes to them.
\<close>

subsection \<open>Program model\<close>

type_synonym fid = nat

datatype llvm_type = IntegerTy nat | VoidTy | PointerTy llvm_type | FunctionTy llvm_type "llvm_type list"

text \<open>
  An argument operand is either a function (\<open>dyn_cast<llvm::Function>(arg)\<close> succeeds) or
  another value, of which the code reads only the type.
\<close>

datatype Value = FunctionRef fid | OtherValue llvm_type

text \<open>
  A call or invoke instruction: \<open>getCalledFunction()\<close> (null for an indirect call),
  \<open>getFunctionType()\<close> and the argument operands.
\<close>

record CallSite =
  getCalledFunction :: "fid option"
  getFunctionType :: llvm_type
  argOperands :: "Value list"

datatype Instruction = CallInst CallSite | InvokeInst CallSite | OtherInst

text \<open>
  A function: its name, \<open>getFunctionType()\<close> (\<open>fnType\<close>) and its basic blocks. A
  declaration is a function without blocks.
\<close>

record Function =
  getName :: string
  fnType :: llvm_type
  blocks :: "Instruction list list"

type_synonym Module = "(fid \<times> Function) list"

text \<open>
  \<open>llvm::CallGraph\<close> and \<open>llvm::CallGraphNode\<close> are classes of LLVM; the call graph
  is handed to the constructor and only read. The model keeps what the code reads of it.
  A value of \<open>CallGraphNode\<close> is what a \<open>CallGraphNode*\<close> can be for the code: null, a
  node whose \<open>getFunction()\<close> is null (the external nodes), or the node of a function.
  The graph lists, for each function, the callee nodes of the call records of its node;
  \<open>(*m_callGraph)[F]\<close> is \<open>FunctionNode F\<close>, and a function without an entry has no
  call records.
\<close>

datatype CallGraphNode = NullNode | ExternalNode | FunctionNode fid

type_synonym CallGraph = "(fid \<times> CallGraphNode list) list"

text \<open>
  Dereferencing a \<open>Function*\<close>: the blocks stored at the address. An address outside the
  module has no blocks.
\<close>

definition blocks_of :: "Module \<Rightarrow> fid \<Rightarrow> Instruction list list" where
  "blocks_of M F = (case map_of M F of None \<Rightarrow> [] | Some fn \<Rightarrow> blocks fn)"

definition isDeclaration :: "Module \<Rightarrow> fid \<Rightarrow> bool" where
  "isDeclaration M F = (blocks_of M F = [])"

definition calledNodes :: "CallGraph \<Rightarrow> fid \<Rightarrow> CallGraphNode list" where
  "calledNodes cg F = (case map_of cg F of None \<Rightarrow> [] | Some ns \<Rightarrow> ns)"

definition graph_functions :: "CallGraph \<Rightarrow> fid set" where
  "graph_functions cg = fst ` set cg"

subsection \<open>The direct call-graph walk\<close>

text \<open>
  \<open>collect_reachable_functions\<close> is the recursive member function; \<open>visit_calls\<close> is its
  \<open>for\<close> loop over the call records of the node, which passes the set updated by one
  callee on to the next. The set \<open>reachable_functions\<close> is passed by reference in the
  source and returned here.
\<close>

function collect_reachable_functions :: "Module \<Rightarrow> CallGraph \<Rightarrow> CallGraphNode \<Rightarrow> fid set \<Rightarrow> fid set"
  and visit_calls :: "Module \<Rightarrow> CallGraph \<Rightarrow> CallGraphNode list \<Rightarrow> fid set \<Rightarrow> fid set"
where
  "collect_reachable_functions M cg callNode reachable_functions =
     (case callNode of
        NullNode \<Rightarrow> reachable_functions
      | ExternalNode \<Rightarrow> reachable_functions
      | FunctionNode nodeF \<Rightarrow>
          if isDeclaration M nodeF then reachable_functions
          else if nodeF \<in> reachable_functions then reachable_functions
          else visit_calls M cg (calledNodes cg nodeF) (insert nodeF reachable_functions))"
| "visit_calls M cg [] reachable_functions = reachable_functions"
| "visit_calls M cg (n # ns) reachable_functions =
     visit_calls M cg ns (collect_reachable_functions M cg n reachable_functions)"
  by pat_completeness auto

text \<open>
  Termination: every insertion of a function of the graph lowers the number of graph
  functions outside the set; between insertions the pending work shrinks.
\<close>

lemma calledNodes_outside: "F \<notin> graph_functions cg \<Longrightarrow> calledNodes cg F = []"
  by (simp add: calledNodes_def graph_functions_def map_of_eq_None_iff[THEN iffD2])

lemma walk_grows_dom:
  "collect_reachable_functions_visit_calls_dom (Inl (M, cg, n, out)) \<Longrightarrow>
     out \<subseteq> collect_reachable_functions M cg n out"
  "collect_reachable_functions_visit_calls_dom (Inr (M, cg, ns, out)) \<Longrightarrow>
     out \<subseteq> visit_calls M cg ns out"
proof (induction M cg n out and M cg ns out rule: collect_reachable_functions_visit_calls.pinduct)
  case (1 M cg callNode out)
  then show ?case
    by (cases callNode) (auto simp: collect_reachable_functions.psimps)
next
  case (2 M cg out)
  then show ?case by (simp add: visit_calls.psimps)
next
  case (3 M cg n ns out)
  then show ?case by (auto simp: visit_calls.psimps)
qed

definition unvisited :: "CallGraph \<Rightarrow> fid set \<Rightarrow> nat" where
  "unvisited cg out = card (graph_functions cg - out)"

lemma unvisited_insert:
  "F \<in> graph_functions cg \<Longrightarrow> F \<notin> out \<Longrightarrow> unvisited cg (insert F out) < unvisited cg out"
proof -
  assume a: "F \<in> graph_functions cg" "F \<notin> out"
  have fin: "finite (graph_functions cg - out)" by (simp add: graph_functions_def)
  have "graph_functions cg - insert F out \<subset> graph_functions cg - out" using a by auto
  then show ?thesis unfolding unvisited_def using fin by (rule psubset_card_mono[rotated])
qed

lemma unvisited_mono: "out \<subseteq> out' \<Longrightarrow> unvisited cg out' \<le> unvisited cg out"
  unfolding unvisited_def by (rule card_mono) (auto simp: graph_functions_def)

termination collect_reachable_functions
proof (relation "inv_image (less_than <*lex*> less_than)
        (\<lambda>x. case x of
           Inl (M, cg, n, out) \<Rightarrow> (unvisited cg out, 1)
         | Inr (M, cg, ns, out) \<Rightarrow> (unvisited cg out, 2 * length ns))", goal_cases)
  case 1
  show ?case by (intro wf_inv_image wf_lex_prod wf_less_than)
next
  case (2 M cg callNode out F)
  show ?case
  proof (cases "F \<in> graph_functions cg")
    case True
    with 2 show ?thesis by (simp add: unvisited_insert)
  next
    case False
    have "unvisited cg (insert F out) \<le> unvisited cg out" by (rule unvisited_mono) auto
    with False show ?thesis by (auto simp: calledNodes_outside)
  qed
next
  case (3 M cg n ns out)
  show ?case by simp
next
  case (4 M cg n ns out)
  then have "out \<subseteq> collect_reachable_functions M cg n out" by (rule walk_grows_dom)
  then have "unvisited cg (collect_reachable_functions M cg n out) \<le> unvisited cg out"
    by (rule unvisited_mono)
  then show ?case by auto
qed

declare collect_reachable_functions.simps [simp del]

lemmas walk_simps = collect_reachable_functions.simps


subsection \<open>The signature index\<close>

type_synonym FunctionSet = "fid set"

type_synonym FunctionTypeMap = "llvm_type \<rightharpoonup> FunctionSet"

text \<open>
  \<open>add_function_type\<close> is the loop body \<open>functionTypes[F.getFunctionType()].insert(&F)\<close>:
  \<open>operator[]\<close> creates an empty set for a new key.
\<close>

definition add_function_type :: "FunctionTypeMap \<Rightarrow> fid \<times> Function \<Rightarrow> FunctionTypeMap" where
  "add_function_type functionTypes p =
     functionTypes(fnType (snd p) \<mapsto>
       insert (fst p) (case functionTypes (fnType (snd p)) of None \<Rightarrow> {} | Some s \<Rightarrow> s))"

definition collect_function_types :: "Module \<Rightarrow> FunctionTypeMap" where
  "collect_function_types M = foldl add_function_type Map.empty M"

subsection \<open>Candidates of one call site and of one function body\<close>

definition get_indirect_called_functions :: "CallSite \<Rightarrow> FunctionTypeMap \<Rightarrow> FunctionSet" where
  "get_indirect_called_functions callInst functionTypes =
     (if getCalledFunction callInst \<noteq> None then {}
      else case functionTypes (getFunctionType callInst) of
             None \<Rightarrow> {}
           | Some s \<Rightarrow> s)"

text \<open>
  \<open>add_callback\<close> is the body of the loop over the argument operands in
  \<open>get_functions_from_arguments\<close>.
\<close>

definition add_callback :: "FunctionTypeMap \<Rightarrow> FunctionSet \<Rightarrow> Value \<Rightarrow> FunctionSet" where
  "add_callback functionTypes callbacks arg =
     (case arg of
        FunctionRef argF \<Rightarrow> insert argF callbacks
      | OtherValue ty \<Rightarrow>
          (case ty of
             FunctionTy ret params \<Rightarrow>
               (case functionTypes ty of
                  None \<Rightarrow> callbacks
                | Some s \<Rightarrow> callbacks \<union> s)
           | _ \<Rightarrow> callbacks))"

definition get_functions_from_arguments :: "CallSite \<Rightarrow> FunctionTypeMap \<Rightarrow> FunctionSet" where
  "get_functions_from_arguments callInst functionTypes =
     foldl (add_callback functionTypes) {} (argOperands callInst)"

text \<open>
  \<open>scan_instruction\<close> is the body of the loop over the instructions of a block in
  \<open>collect_indirectly_called_functions\<close>.
\<close>

definition scan_instruction :: "FunctionTypeMap \<Rightarrow> FunctionSet \<Rightarrow> Instruction \<Rightarrow> FunctionSet" where
  "scan_instruction functionTypes called_functions I =
     (let functions =
            (case I of
               CallInst callInst \<Rightarrow> get_indirect_called_functions callInst functionTypes
             | InvokeInst invokeInst \<Rightarrow> get_indirect_called_functions invokeInst functionTypes
             | OtherInst \<Rightarrow> {});
          callback_functions =
            (case I of
               CallInst callInst \<Rightarrow> get_functions_from_arguments callInst functionTypes
             | InvokeInst invokeInst \<Rightarrow> get_functions_from_arguments invokeInst functionTypes
             | OtherInst \<Rightarrow> {});
          called1 = (if functions \<noteq> {} then called_functions \<union> functions else called_functions)
      in if callback_functions \<noteq> {} then called1 \<union> callback_functions else called1)"

definition collect_indirectly_called_functions :: "Module \<Rightarrow> fid \<Rightarrow> FunctionTypeMap \<Rightarrow> FunctionSet" where
  "collect_indirectly_called_functions M F functionTypes =
     foldl (\<lambda>called_functions B. foldl (scan_instruction functionTypes) called_functions B)
       {} (blocks_of M F)"

subsection \<open>The worklist loop\<close>

text \<open>
  \<open>FunctionSet\<close> is a \<open>std::unordered_set\<close>: the order in which a range-for visits its
  elements is not fixed by the code. The order is a parameter \<open>iter\<close> of the model, a
  function listing a set; \<open>iteration_order iter\<close> says that it lists every finite set
  completely and without repetition.
\<close>

definition iteration_order :: "(fid set \<Rightarrow> fid list) \<Rightarrow> bool" where
  "iteration_order iter = (\<forall>S. finite S \<longrightarrow> set (iter S) = S \<and> distinct (iter S))"

text \<open>
  \<open>insert_and_enqueue\<close> is the body of the innermost loop (over \<open>reachables\<close>),
  \<open>add_indirect\<close> the body of the loop over \<open>indirectly_called\<close>, and
  \<open>worklist_loop\<close> the \<open>while (!working_list.empty())\<close> loop, which returns
  \<open>None\<close> when it does not terminate.
\<close>

definition insert_and_enqueue :: "FunctionSet \<times> fid list \<Rightarrow> fid \<Rightarrow> FunctionSet \<times> fid list" where
  "insert_and_enqueue st F =
     (case st of (reachable_functions, working_list) \<Rightarrow>
        if F \<in> reachable_functions then (reachable_functions, working_list)
        else (insert F reachable_functions, working_list @ [F]))"

definition add_indirect ::
  "(fid set \<Rightarrow> fid list) \<Rightarrow> Module \<Rightarrow> CallGraph \<Rightarrow> FunctionSet \<times> fid list \<Rightarrow> fid \<Rightarrow> FunctionSet \<times> fid list" where
  "add_indirect iter M cg st indirectF =
     (case st of (reachable_functions, working_list) \<Rightarrow>
        if indirectF \<in> reachable_functions then (reachable_functions, working_list)
        else
          let reachables = collect_reachable_functions M cg (FunctionNode indirectF) {}
          in foldl insert_and_enqueue
               (insert indirectF reachable_functions, working_list @ [indirectF])
               (iter reachables))"

partial_function (option) worklist_loop ::
  "(fid set \<Rightarrow> fid list) \<Rightarrow> Module \<Rightarrow> CallGraph \<Rightarrow> FunctionTypeMap \<Rightarrow>
     fid list \<Rightarrow> FunctionSet \<Rightarrow> FunctionSet \<Rightarrow> FunctionSet option" where
  "worklist_loop iter M cg functionTypes working_list processed_functions reachable_functions =
     (case working_list of
        [] \<Rightarrow> Some reachable_functions
      | F # rest \<Rightarrow>
          if F \<in> processed_functions
          then worklist_loop iter M cg functionTypes rest processed_functions reachable_functions
          else
            let indirectly_called = collect_indirectly_called_functions M F functionTypes
            in case foldl (add_indirect iter M cg) (reachable_functions, rest) (iter indirectly_called) of
                 (reachable', working_list') \<Rightarrow>
                   worklist_loop iter M cg functionTypes working_list'
                     (insert F processed_functions) reachable')"

definition collect_indirectly_reachable_functions ::
  "(fid set \<Rightarrow> fid list) \<Rightarrow> Module \<Rightarrow> CallGraph \<Rightarrow> FunctionSet \<Rightarrow> FunctionTypeMap \<Rightarrow> FunctionSet option" where
  "collect_indirectly_reachable_functions iter M cg reachable_functions functionTypes =
     worklist_loop iter M cg functionTypes (iter reachable_functions) {} reachable_functions"

declare worklist_loop.simps [code]

subsection \<open>The query and the pass\<close>

definition getReachableFunctions ::
  "(fid set \<Rightarrow> fid list) \<Rightarrow> Module \<Rightarrow> CallGraph \<Rightarrow> fid \<Rightarrow> FunctionSet option" where
  "getReachableFunctions iter M cg F =
     (let functionTypes = collect_function_types M;
          entryNode = FunctionNode F;
          reachable_functions = collect_reachable_functions M cg entryNode {}
      in collect_indirectly_reachable_functions iter M cg reachable_functions functionTypes)"

text \<open>
  \<open>runOnModule\<close> returns its boolean result together with the lines written to
  \<open>llvm::dbgs()\<close> (each line without its final newline).
\<close>

definition getFunction :: "Module \<Rightarrow> string \<Rightarrow> fid option" where
  "getFunction M n = map_option fst (find (\<lambda>p. getName (snd p) = n) M)"

definition name_of :: "Module \<Rightarrow> fid \<Rightarrow> string" where
  "name_of M F = (case map_of M F of None \<Rightarrow> [] | Some fn \<Rightarrow> getName fn)"

definition report :: "(fid set \<Rightarrow> fid list) \<Rightarrow> Module \<Rightarrow> FunctionSet \<Rightarrow> string list" where
  "report iter M reachable_from_main =
     [''Function reachable from main are'']
     @ map (\<lambda>F. ''+++'' @ name_of M F) (iter reachable_from_main)
     @ [''Non reachable functions'']
     @ map (\<lambda>p. ''---'' @ getName (snd p))
         (filter (\<lambda>p. blocks (snd p) \<noteq> [] \<and> fst p \<notin> reachable_from_main) M)"

definition runOnModule ::
  "(fid set \<Rightarrow> fid list) \<Rightarrow> Module \<Rightarrow> CallGraph \<Rightarrow> (bool \<times> string list) option" where
  "runOnModule iter M CG =
     (case getFunction M ''main'' of
        None \<Rightarrow> Some (False, [''No function main''])
      | Some mainF \<Rightarrow>
          (case getReachableFunctions iter M CG mainF of
             None \<Rightarrow> None
           | Some reachable_from_main \<Rightarrow> Some (False, report iter M reachable_from_main)))"

section \<open>Notions used in the statements\<close>

text \<open>
  The defined functions among the functions of a list of callee nodes, and closure of a
  set under direct calls: every defined member that is not in \<open>old\<close> has its defined
  callees in the set.
\<close>

definition node_functions :: "Module \<Rightarrow> CallGraphNode list \<Rightarrow> fid set" where
  "node_functions M ns = {g. FunctionNode g \<in> set ns \<and> \<not> isDeclaration M g}"

definition direct_closed :: "Module \<Rightarrow> CallGraph \<Rightarrow> fid set \<Rightarrow> fid set \<Rightarrow> bool" where
  "direct_closed M cg old R =
     (\<forall>h\<in>R. h \<notin> old \<longrightarrow> \<not> isDeclaration M h \<longrightarrow> node_functions M (calledNodes cg h) \<subseteq> R)"

text \<open>The functions that occur as a callee in the call graph.\<close>

definition call_targets :: "CallGraph \<Rightarrow> fid set" where
  "call_targets cg = (\<Union>p\<in>set cg. \<Union>n\<in>set (snd p). case n of FunctionNode g \<Rightarrow> {g} | _ \<Rightarrow> {})"

text \<open>All functions of the module with a given type, with or without a body.\<close>

definition functions_of_type :: "Module \<Rightarrow> llvm_type \<Rightarrow> fid set" where
  "functions_of_type M ty = set (map fst (filter (\<lambda>p. fnType (snd p) = ty) M))"

text \<open>The candidates contributed by one argument operand and by one instruction.\<close>

definition callback_candidates :: "FunctionTypeMap \<Rightarrow> Value \<Rightarrow> fid set" where
  "callback_candidates functionTypes arg = add_callback functionTypes {} arg"

definition candidates :: "FunctionTypeMap \<Rightarrow> Instruction \<Rightarrow> fid set" where
  "candidates functionTypes I = scan_instruction functionTypes {} I"

definition module_candidates :: "Module \<Rightarrow> FunctionTypeMap \<Rightarrow> fid set" where
  "module_candidates M ft = (\<Union>p\<in>set M. \<Union>B\<in>set (blocks (snd p)). \<Union>I\<in>set B. candidates ft I)"

text \<open>
  \<open>extends M cg r C r'\<close>: the set \<open>r'\<close> contains \<open>r\<close> and \<open>C\<close>, lies within every
  set closed under direct calls that contains both, and is closed under direct calls if
  \<open>r\<close> is.
\<close>

definition extends :: "Module \<Rightarrow> CallGraph \<Rightarrow> fid set \<Rightarrow> fid set \<Rightarrow> fid set \<Rightarrow> bool" where
  "extends M cg r C r' =
     (r \<subseteq> r' \<and> C \<subseteq> r'
      \<and> (\<forall>X. r \<subseteq> X \<and> C \<subseteq> X \<and> direct_closed M cg {} X \<longrightarrow> r' \<subseteq> X)
      \<and> (direct_closed M cg {} r \<longrightarrow> direct_closed M cg {} r'))"

text \<open>
  The invariant of the worklist loop, closure of a set under direct calls and under the
  candidates of its members, and a finite set that bounds what the loop can insert.
\<close>

definition loop_inv :: "Module \<Rightarrow> CallGraph \<Rightarrow> FunctionTypeMap \<Rightarrow> fid list \<Rightarrow> fid set \<Rightarrow> fid set \<Rightarrow> bool" where
  "loop_inv M cg ft wl proc r =
     (set wl \<subseteq> r \<and> r \<subseteq> proc \<union> set wl
      \<and> (\<forall>f\<in>proc. collect_indirectly_called_functions M f ft \<subseteq> r)
      \<and> direct_closed M cg {} r)"

definition closed_set :: "Module \<Rightarrow> CallGraph \<Rightarrow> FunctionTypeMap \<Rightarrow> fid set \<Rightarrow> bool" where
  "closed_set M cg ft R =
     (direct_closed M cg {} R \<and> (\<forall>f\<in>R. collect_indirectly_called_functions M f ft \<subseteq> R))"

definition universe :: "Module \<Rightarrow> CallGraph \<Rightarrow> FunctionTypeMap \<Rightarrow> fid set" where
  "universe M cg ft = module_candidates M ft \<union> call_targets cg"

text \<open>The call sites of a function body, in program order.\<close>

definition instruction_sites :: "Instruction \<Rightarrow> CallSite list" where
  "instruction_sites I =
     (case I of CallInst callInst \<Rightarrow> [callInst] | InvokeInst invokeInst \<Rightarrow> [invokeInst] | OtherInst \<Rightarrow> [])"

definition block_sites :: "Instruction list list \<Rightarrow> CallSite list" where
  "block_sites bs = concat (map (\<lambda>B. concat (map instruction_sites B)) bs)"

definition call_sites :: "Module \<Rightarrow> fid \<Rightarrow> CallSite list" where
  "call_sites M F = block_sites (blocks_of M F)"

text \<open>
  The walk follows the call graph, not the call instructions. The call graph has the calls
  to definitions when every call site of a function of the module whose known callee has a
  body is an edge from the caller's node to the callee's node. Nothing is asked about
  calls to declarations or about indirect calls.
\<close>

definition has_calls_to_definitions :: "Module \<Rightarrow> CallGraph \<Rightarrow> bool" where
  "has_calls_to_definitions M cg =
     list_all (\<lambda>F. list_all (\<lambda>cs. case getCalledFunction cs of
                                       None \<Rightarrow> True
                                     | Some C \<Rightarrow> \<not> isDeclaration M C \<longrightarrow>
                                           FunctionNode C \<in> set (calledNodes cg F))
                        (call_sites M F)) (map fst M)"

subsection \<open>An example module\<close>

text \<open>
  \<open>main\<close> (0) makes an indirect call of type \<open>void ()\<close>, calls the declared
  \<open>on_exit\<close> (3) with the declared \<open>cleanup\<close> (2) as argument, and invokes
  \<open>compute\<close> (5), which calls itself. \<open>handler\<close> (1) is a declaration and
  \<open>helper\<close> (4) a definition of type \<open>void ()\<close>. \<open>ping\<close> (6) and \<open>pong\<close> (7)
  call each other and are called by nobody else.
\<close>

definition example_module :: Module where
  "example_module =
     [(0, \<lparr>getName = ''main'', fnType = FunctionTy (IntegerTy 32) [],
           blocks = [[CallInst \<lparr>getCalledFunction = None, getFunctionType = FunctionTy VoidTy [],
                               argOperands = []\<rparr>,
                      CallInst \<lparr>getCalledFunction = Some 3,
                               getFunctionType = FunctionTy (IntegerTy 32) [PointerTy (FunctionTy VoidTy [IntegerTy 32])],
                               argOperands = [FunctionRef 2]\<rparr>,
                      OtherInst],
                     [InvokeInst \<lparr>getCalledFunction = Some 5,
                                 getFunctionType = FunctionTy (IntegerTy 32) [IntegerTy 32],
                                 argOperands = [OtherValue (IntegerTy 32)]\<rparr>]]\<rparr>),
      (1, \<lparr>getName = ''handler'', fnType = FunctionTy VoidTy [], blocks = []\<rparr>),
      (2, \<lparr>getName = ''cleanup'', fnType = FunctionTy VoidTy [IntegerTy 32], blocks = []\<rparr>),
      (3, \<lparr>getName = ''on_exit'',
           fnType = FunctionTy (IntegerTy 32) [PointerTy (FunctionTy VoidTy [IntegerTy 32])],
           blocks = []\<rparr>),
      (4, \<lparr>getName = ''helper'', fnType = FunctionTy VoidTy [], blocks = [[OtherInst]]\<rparr>),
      (5, \<lparr>getName = ''compute'', fnType = FunctionTy (IntegerTy 32) [IntegerTy 32],
           blocks = [[CallInst \<lparr>getCalledFunction = Some 5,
                               getFunctionType = FunctionTy (IntegerTy 32) [IntegerTy 32],
                               argOperands = [OtherValue (IntegerTy 32)]\<rparr>]]\<rparr>),
      (6, \<lparr>getName = ''ping'', fnType = FunctionTy VoidTy [IntegerTy 8],
           blocks = [[CallInst \<lparr>getCalledFunction = Some 7,
                               getFunctionType = FunctionTy VoidTy [IntegerTy 16],
                               argOperands = [OtherValue (IntegerTy 16)]\<rparr>]]\<rparr>),
      (7, \<lparr>getName = ''pong'', fnType = FunctionTy VoidTy [IntegerTy 16],
           blocks = [[CallInst \<lparr>getCalledFunction = Some 6,
                               getFunctionType = FunctionTy VoidTy [IntegerTy 8],
                               argOperands = [OtherValue (IntegerTy 8)]\<rparr>]]\<rparr>)]"

text \<open>
  \<open>sparse_graph\<close> is the call graph of the example without the edge from \<open>main\<close> to the
  declared \<open>on_exit\<close>.
\<close>

definition sparse_graph :: CallGraph where
  "sparse_graph =
     [(0, [ExternalNode, FunctionNode 5]), (1, [ExternalNode]),
      (2, [ExternalNode]), (3, [ExternalNode]), (4, []), (5, [FunctionNode 5]),
      (6, [FunctionNode 7]), (7, [FunctionNode 6])]"

definition example_graph :: CallGraph where
  "example_graph =
     [(0, [ExternalNode, FunctionNode 3, FunctionNode 5]), (1, [ExternalNode]),
      (2, [ExternalNode]), (3, [ExternalNode]), (4, []), (5, [FunctionNode 5]),
      (6, [FunctionNode 7]), (7, [FunctionNode 6])]"

section \<open>Properties of the walk, the index and the loop\<close>

lemma node_functions_simps [simp]:
  "node_functions M [] = {}"
  "node_functions M (NullNode # ns) = node_functions M ns"
  "node_functions M (ExternalNode # ns) = node_functions M ns"
  "node_functions M (FunctionNode g # ns) =
     (if isDeclaration M g then node_functions M ns else insert g (node_functions M ns))"
  by (auto simp: node_functions_def)

lemma walk_grows:
  "out \<subseteq> collect_reachable_functions M cg n out"
  "out \<subseteq> visit_calls M cg ns out"
  by (induction M cg n out and M cg ns out rule: collect_reachable_functions_visit_calls.induct)
     (auto simp: walk_simps split: CallGraphNode.splits)

lemma walk_defined:
  "f \<in> collect_reachable_functions M cg n out \<Longrightarrow> f \<in> out \<or> \<not> isDeclaration M f"
  "f \<in> visit_calls M cg ns out \<Longrightarrow> f \<in> out \<or> \<not> isDeclaration M f"
  by (induction M cg n out and M cg ns out rule: collect_reachable_functions_visit_calls.induct)
     (auto simp: walk_simps split: CallGraphNode.splits if_splits)

lemma walk_finite:
  "finite out \<Longrightarrow> finite (collect_reachable_functions M cg n out)"
  "finite out \<Longrightarrow> finite (visit_calls M cg ns out)"
  by (induction M cg n out and M cg ns out rule: collect_reachable_functions_visit_calls.induct)
     (auto simp: walk_simps split: CallGraphNode.splits)

lemma walk_visits:
  "node_functions M [n] \<subseteq> collect_reachable_functions M cg n out"
  "node_functions M ns \<subseteq> visit_calls M cg ns out"
proof (induction M cg n out and M cg ns out rule: collect_reachable_functions_visit_calls.induct)
  case (1 M cg callNode out)
  show ?case
  proof (cases callNode)
    case (FunctionNode f)
    have "insert f out \<subseteq> visit_calls M cg (calledNodes cg f) (insert f out)" by (rule walk_grows)
    with FunctionNode show ?thesis by (auto simp: walk_simps)
  qed (simp_all add: walk_simps)
next
  case (2 M cg out)
  show ?case by simp
next
  case (3 M cg n ns out)
  have "collect_reachable_functions M cg n out
          \<subseteq> visit_calls M cg ns (collect_reachable_functions M cg n out)" by (rule walk_grows)
  with 3 show ?case by (cases n) (auto split: if_splits)
qed

lemma walk_closed:
  "direct_closed M cg out (collect_reachable_functions M cg n out)"
  "direct_closed M cg out (visit_calls M cg ns out)"
proof (induction M cg n out and M cg ns out rule: collect_reachable_functions_visit_calls.induct)
  case (1 M cg callNode out)
  show ?case
  proof (cases callNode)
    case NullNode
    then show ?thesis by (simp add: direct_closed_def walk_simps)
  next
    case ExternalNode
    then show ?thesis by (simp add: direct_closed_def walk_simps)
  next
    case (FunctionNode f)
    show ?thesis
    proof (cases "isDeclaration M f \<or> f \<in> out")
      case True
      with FunctionNode show ?thesis by (auto simp: direct_closed_def walk_simps)
    next
      case False
      let ?R = "visit_calls M cg (calledNodes cg f) (insert f out)"
      from False FunctionNode have ih: "direct_closed M cg (insert f out) ?R"
        using "1.IH" by simp
      have callees: "node_functions M (calledNodes cg f) \<subseteq> ?R" by (rule walk_visits)
      have "direct_closed M cg out ?R"
        unfolding direct_closed_def
      proof (intro ballI impI)
        fix h assume h: "h \<in> ?R" "h \<notin> out" "\<not> isDeclaration M h"
        show "node_functions M (calledNodes cg h) \<subseteq> ?R"
        proof (cases "h = f")
          case True
          with callees show ?thesis by simp
        next
          case False
          with h ih show ?thesis by (simp add: direct_closed_def)
        qed
      qed
      with False FunctionNode show ?thesis by (simp add: walk_simps)
    qed
  qed
next
  case (2 M cg out)
  show ?case by (simp add: direct_closed_def)
next
  case (3 M cg n ns out)
  let ?R1 = "collect_reachable_functions M cg n out"
  let ?R = "visit_calls M cg ns ?R1"
  have sub: "?R1 \<subseteq> ?R" by (rule walk_grows)
  have "direct_closed M cg out ?R"
    unfolding direct_closed_def
  proof (intro ballI impI)
    fix h assume h: "h \<in> ?R" "h \<notin> out" "\<not> isDeclaration M h"
    show "node_functions M (calledNodes cg h) \<subseteq> ?R"
    proof (cases "h \<in> ?R1")
      case True
      with h "3.IH"(1) have "node_functions M (calledNodes cg h) \<subseteq> ?R1"
        by (simp add: direct_closed_def)
      with sub show ?thesis by blast
    next
      case False
      with h "3.IH"(2) show ?thesis by (simp add: direct_closed_def)
    qed
  qed
  then show ?case by simp
qed

lemma walk_within:
  "out \<subseteq> X \<Longrightarrow> node_functions M [n] \<subseteq> X \<Longrightarrow> direct_closed M cg {} X \<Longrightarrow>
     collect_reachable_functions M cg n out \<subseteq> X"
  "out \<subseteq> X \<Longrightarrow> node_functions M ns \<subseteq> X \<Longrightarrow> direct_closed M cg {} X \<Longrightarrow>
     visit_calls M cg ns out \<subseteq> X"
proof (induction M cg n out and M cg ns out rule: collect_reachable_functions_visit_calls.induct)
  case (1 M cg callNode out)
  show ?case
  proof (cases callNode)
    case (FunctionNode f)
    show ?thesis
    proof (cases "isDeclaration M f \<or> f \<in> out")
      case True
      with FunctionNode "1.prems" show ?thesis by (auto simp: walk_simps)
    next
      case False
      with FunctionNode "1.prems" have fX: "f \<in> X" by simp
      with False "1.prems"(3) have "node_functions M (calledNodes cg f) \<subseteq> X"
        by (simp add: direct_closed_def)
      with False FunctionNode fX "1.prems" "1.IH"
      have "visit_calls M cg (calledNodes cg f) (insert f out) \<subseteq> X" by simp
      with False FunctionNode show ?thesis by (simp add: walk_simps)
    qed
  qed (use "1.prems" in \<open>simp_all add: walk_simps\<close>)
next
  case (2 M cg out)
  then show ?case by simp
next
  case (3 M cg n ns out)
  from "3.prems" have n: "node_functions M [n] \<subseteq> X" and ns: "node_functions M ns \<subseteq> X"
    by (cases n; auto split: if_splits)+
  from "3.IH"(1)[OF "3.prems"(1) n "3.prems"(3)] "3.IH"(2)[OF _ ns "3.prems"(3)]
  show ?case by simp
qed

lemma calledNodes_targets: "FunctionNode g \<in> set (calledNodes cg f) \<Longrightarrow> g \<in> call_targets cg"
proof -
  assume a: "FunctionNode g \<in> set (calledNodes cg f)"
  then obtain ns where ns: "map_of cg f = Some ns" "FunctionNode g \<in> set ns"
    by (cases "map_of cg f") (auto simp: calledNodes_def)
  then have "(f, ns) \<in> set cg" by (simp add: map_of_SomeD)
  with ns(2) show ?thesis unfolding call_targets_def by force
qed

lemma finite_call_targets: "finite (call_targets cg)"
  unfolding call_targets_def by (auto split: CallGraphNode.splits)

lemma direct_closed_targets: "direct_closed M cg {} (insert f (call_targets cg))"
  unfolding direct_closed_def node_functions_def by (auto dest: calledNodes_targets)

lemma foldl_add_function_type:
  "foldl add_function_type ft M ty =
     (if functions_of_type M ty = {} then ft ty
      else Some ((case ft ty of None \<Rightarrow> {} | Some s \<Rightarrow> s) \<union> functions_of_type M ty))"
proof (induction M arbitrary: ft)
  case Nil
  show ?case by (simp add: functions_of_type_def)
next
  case (Cons p M)
  have split: "functions_of_type (p # M) ty =
      (if fnType (snd p) = ty then insert (fst p) (functions_of_type M ty) else functions_of_type M ty)"
    by (auto simp: functions_of_type_def)
  show ?case
    by (simp add: Cons.IH split) (auto simp: add_function_type_def split: option.splits)
qed

lemma collect_function_types_eq:
  "collect_function_types M ty =
     (if functions_of_type M ty = {} then None else Some (functions_of_type M ty))"
  by (simp add: collect_function_types_def foldl_add_function_type)

lemma index_within_module:
  "collect_function_types M ty = Some S \<Longrightarrow> S \<subseteq> fst ` set M"
  by (auto simp: collect_function_types_eq functions_of_type_def split: if_splits)

lemma finite_index: "finite (\<Union>(ran (collect_function_types M)))"
proof (rule finite_subset)
  show "\<Union>(ran (collect_function_types M)) \<subseteq> fst ` set M"
    by (auto simp: ran_def dest: index_within_module)
qed simp

lemma add_callback_union:
  "add_callback ft acc v = acc \<union> callback_candidates ft v"
  by (auto simp: add_callback_def callback_candidates_def split: Value.splits llvm_type.splits option.splits)

lemma foldl_add_callback:
  "foldl (add_callback ft) acc vs = acc \<union> (\<Union>v\<in>set vs. callback_candidates ft v)"
  by (induction vs arbitrary: acc) (auto simp: add_callback_union)

lemma get_functions_from_arguments_eq:
  "get_functions_from_arguments cs ft = (\<Union>v\<in>set (argOperands cs). callback_candidates ft v)"
  by (simp add: get_functions_from_arguments_def foldl_add_callback)

lemma scan_instruction_union:
  "scan_instruction ft acc I = acc \<union> candidates ft I"
  by (auto simp: scan_instruction_def candidates_def Let_def)

lemma foldl_scan_instruction:
  "foldl (scan_instruction ft) acc B = acc \<union> (\<Union>I\<in>set B. candidates ft I)"
  by (induction B arbitrary: acc) (auto simp: scan_instruction_union)

lemma foldl_scan_blocks:
  "foldl (\<lambda>called B. foldl (scan_instruction ft) called B) acc Bs =
     acc \<union> (\<Union>B\<in>set Bs. \<Union>I\<in>set B. candidates ft I)"
  by (induction Bs arbitrary: acc) (auto simp: foldl_scan_instruction)

lemma collect_indirectly_called_functions_eq:
  "collect_indirectly_called_functions M F ft =
     (\<Union>B\<in>set (blocks_of M F). \<Union>I\<in>set B. candidates ft I)"
  by (simp add: collect_indirectly_called_functions_def foldl_scan_blocks)

lemma candidates_CallInst:
  "candidates ft (CallInst cs) = get_indirect_called_functions cs ft \<union> get_functions_from_arguments cs ft"
  "candidates ft (InvokeInst cs) = get_indirect_called_functions cs ft \<union> get_functions_from_arguments cs ft"
  "candidates ft OtherInst = {}"
  by (auto simp: candidates_def scan_instruction_def Let_def)

lemma finite_callback_candidates:
  "finite (\<Union>(ran ft)) \<Longrightarrow> finite (callback_candidates ft v)"
proof -
  assume fin: "finite (\<Union>(ran ft))"
  have "callback_candidates ft v \<subseteq> (case v of FunctionRef g \<Rightarrow> {g} | _ \<Rightarrow> {}) \<union> \<Union>(ran ft)"
    by (auto simp: callback_candidates_def add_callback_def ran_def
             split: Value.splits llvm_type.splits option.splits)
  moreover have "finite ((case v of FunctionRef g \<Rightarrow> {g} | _ \<Rightarrow> {}) \<union> \<Union>(ran ft))"
    using fin by (cases v) simp_all
  ultimately show ?thesis by (rule finite_subset)
qed

lemma finite_candidates:
  assumes "finite (\<Union>(ran ft))"
  shows "finite (candidates ft I)"
proof -
  have ind: "finite (get_indirect_called_functions cs ft)" for cs
  proof (rule finite_subset)
    show "get_indirect_called_functions cs ft \<subseteq> \<Union>(ran ft)"
      by (auto simp: get_indirect_called_functions_def ran_def split: option.splits)
  qed (rule assms)
  have cb: "finite (get_functions_from_arguments cs ft)" for cs
    by (simp add: get_functions_from_arguments_eq finite_callback_candidates[OF assms])
  show ?thesis by (cases I) (simp_all add: candidates_CallInst ind cb)
qed

lemma finite_indirectly_called:
  "finite (\<Union>(ran ft)) \<Longrightarrow> finite (collect_indirectly_called_functions M F ft)"
  by (simp add: collect_indirectly_called_functions_eq finite_candidates)

lemma finite_module_candidates:
  "finite (\<Union>(ran ft)) \<Longrightarrow> finite (module_candidates M ft)"
  by (simp add: module_candidates_def finite_candidates)

lemma indirectly_called_in_module:
  "collect_indirectly_called_functions M F ft \<subseteq> module_candidates M ft"
proof (cases "map_of M F")
  case None
  then show ?thesis by (simp add: collect_indirectly_called_functions_eq blocks_of_def)
next
  case (Some fn)
  then have "(F, fn) \<in> set M" by (rule map_of_SomeD)
  with Some show ?thesis
    by (force simp: collect_indirectly_called_functions_eq blocks_of_def module_candidates_def)
qed

lemma direct_closed_superset_targets:
  "call_targets cg \<subseteq> X \<Longrightarrow> direct_closed M cg {} X"
  unfolding direct_closed_def node_functions_def by (auto dest: calledNodes_targets)

lemma insert_and_enqueue_pair:
  "insert_and_enqueue (r, wl) x = (if x \<in> r then (r, wl) else (insert x r, wl @ [x]))"
  by (simp add: insert_and_enqueue_def)

lemma add_indirect_pair:
  "add_indirect iter M cg (r, wl) c =
     (if c \<in> r then (r, wl)
      else foldl insert_and_enqueue (insert c r, wl @ [c])
             (iter (collect_reachable_functions M cg (FunctionNode c) {})))"
  by (simp add: add_indirect_def)

lemma foldl_insert_and_enqueue:
  "\<exists>new. foldl insert_and_enqueue (r, wl) xs = (r \<union> set xs, wl @ new)
         \<and> set new = set xs - r \<and> distinct new"
proof (induction xs arbitrary: r wl)
  case Nil
  show ?case by simp
next
  case (Cons x xs)
  show ?case
  proof (cases "x \<in> r")
    case True
    from Cons.IH[of r wl] obtain new where
      "foldl insert_and_enqueue (r, wl) xs = (r \<union> set xs, wl @ new)"
      "set new = set xs - r" "distinct new" by blast
    moreover have "r \<union> set (x # xs) = r \<union> set xs" "set (x # xs) - r = set xs - r"
      using True by auto
    ultimately show ?thesis using True by (simp add: insert_and_enqueue_pair)
  next
    case False
    from Cons.IH[of "insert x r" "wl @ [x]"] obtain new where new:
      "foldl insert_and_enqueue (insert x r, wl @ [x]) xs = (insert x r \<union> set xs, (wl @ [x]) @ new)"
      "set new = set xs - insert x r" "distinct new" by blast
    have "foldl insert_and_enqueue (r, wl) (x # xs) = (r \<union> set (x # xs), wl @ (x # new))"
      using False new(1) by (simp add: insert_and_enqueue_pair)
    moreover have "set (x # new) = set (x # xs) - r" using False new(2) by auto
    moreover have "distinct (x # new)" using new(2,3) by simp
    ultimately show ?thesis by blast
  qed
qed

lemma extends_refl: "c \<in> r \<Longrightarrow> extends M cg r {c} r"
  by (simp add: extends_def)

lemma extends_sub: "extends M cg r C r' \<Longrightarrow> r \<subseteq> r'"
  and extends_new: "extends M cg r C r' \<Longrightarrow> C \<subseteq> r'"
  and extends_closed: "extends M cg r C r' \<Longrightarrow> direct_closed M cg {} r \<Longrightarrow> direct_closed M cg {} r'"
  and extends_least:
    "extends M cg r C r' \<Longrightarrow> r \<subseteq> X \<Longrightarrow> C \<subseteq> X \<Longrightarrow> direct_closed M cg {} X \<Longrightarrow> r' \<subseteq> X"
  by (simp_all add: extends_def)

lemma extends_trans:
  assumes a: "extends M cg r A r1" and b: "extends M cg r1 B r2"
  shows "extends M cg r (A \<union> B) r2"
proof -
  note s1 = extends_sub[OF a] and s2 = extends_sub[OF b]
  note n1 = extends_new[OF a] and n2 = extends_new[OF b]
  have 1: "r \<subseteq> r2" using s1 s2 by (rule subset_trans)
  have 2: "A \<union> B \<subseteq> r2" using n1 n2 s2 by auto
  have 3: "r2 \<subseteq> X" if X: "r \<subseteq> X" "A \<union> B \<subseteq> X" "direct_closed M cg {} X" for X
  proof -
    from X(2) have AB: "A \<subseteq> X" "B \<subseteq> X" by simp_all
    have "r1 \<subseteq> X" using a X(1) AB(1) X(3) by (rule extends_least)
    with b show ?thesis using AB(2) X(3) by (rule extends_least)
  qed
  have 4: "direct_closed M cg {} r \<longrightarrow> direct_closed M cg {} r2"
    using extends_closed[OF a] extends_closed[OF b] by simp
  show ?thesis unfolding extends_def using 1 2 3 4 by simp
qed

lemma extends_walk:
  "extends M cg r {c} (insert c r \<union> collect_reachable_functions M cg (FunctionNode c) {})"
  (is "extends M cg r {c} (insert c r \<union> ?D)")
  unfolding extends_def
proof (intro conjI allI impI)
  fix X assume X: "r \<subseteq> X \<and> {c} \<subseteq> X \<and> direct_closed M cg {} X"
  then have "?D \<subseteq> X" by (intro walk_within(1)) auto
  with X show "insert c r \<union> ?D \<subseteq> X" by auto
next
  assume r: "direct_closed M cg {} r"
  have D: "direct_closed M cg {} ?D" by (rule walk_closed)
  have c: "\<not> isDeclaration M c \<Longrightarrow> c \<in> ?D" using walk_visits(1)[of M "FunctionNode c" cg "{}"] by simp
  show "direct_closed M cg {} (insert c r \<union> ?D)"
    unfolding direct_closed_def
  proof (intro ballI impI)
    fix h assume h: "h \<in> insert c r \<union> ?D" "\<not> isDeclaration M h"
    then consider "h \<in> ?D" | "h \<in> r" using c by auto
    then show "node_functions M (calledNodes cg h) \<subseteq> insert c r \<union> ?D"
    proof cases
      case 1
      with D h(2) show ?thesis unfolding direct_closed_def by blast
    next
      case 2
      with r h(2) show ?thesis unfolding direct_closed_def by blast
    qed
  qed
qed auto

lemma add_indirect_step:
  assumes "iteration_order iter"
  shows "\<exists>r' new. add_indirect iter M cg (r, wl) c = (r', wl @ new)
           \<and> set new = r' - r \<and> distinct new \<and> extends M cg r {c} r'"
proof (cases "c \<in> r")
  case True
  then have "add_indirect iter M cg (r, wl) c = (r, wl @ [])" by (simp add: add_indirect_pair)
  moreover have "set [] = r - r" "distinct ([]::fid list)" by simp_all
  moreover have "extends M cg r {c} r" using True by (rule extends_refl)
  ultimately show ?thesis by blast
next
  case False
  let ?D = "collect_reachable_functions M cg (FunctionNode c) {}"
  have "finite ?D" by (rule walk_finite) simp
  with assms have it: "set (iter ?D) = ?D" by (simp add: iteration_order_def)
  from foldl_insert_and_enqueue[of "insert c r" "wl @ [c]" "iter ?D"] obtain new where new:
    "foldl insert_and_enqueue (insert c r, wl @ [c]) (iter ?D) = (insert c r \<union> ?D, (wl @ [c]) @ new)"
    "set new = ?D - insert c r" "distinct new" unfolding it by blast
  have "add_indirect iter M cg (r, wl) c = (insert c r \<union> ?D, wl @ (c # new))"
    using False new(1) by (simp add: add_indirect_pair)
  moreover have "set (c # new) = (insert c r \<union> ?D) - r" using False new(2) by auto
  moreover have "distinct (c # new)" using new(2,3) by simp
  ultimately show ?thesis using extends_walk by blast
qed

lemma foldl_add_indirect:
  assumes "iteration_order iter"
  shows "\<exists>r' new. foldl (add_indirect iter M cg) (r, wl) cs = (r', wl @ new)
           \<and> set new = r' - r \<and> distinct new \<and> extends M cg r (set cs) r'"
proof (induction cs arbitrary: r wl)
  case Nil
  have "foldl (add_indirect iter M cg) (r, wl) [] = (r, wl @ [])" by simp
  moreover have "set [] = r - r" "distinct ([]::fid list)" by simp_all
  moreover have "extends M cg r (set []) r" by (simp add: extends_def)
  ultimately show ?case by blast
next
  case (Cons c cs)
  from add_indirect_step[OF assms, of M cg r wl c] obtain r1 new1 where s1:
    "add_indirect iter M cg (r, wl) c = (r1, wl @ new1)"
    "set new1 = r1 - r" "distinct new1" "extends M cg r {c} r1" by blast
  from Cons.IH[of r1 "wl @ new1"] obtain r2 new2 where s2:
    "foldl (add_indirect iter M cg) (r1, wl @ new1) cs = (r2, (wl @ new1) @ new2)"
    "set new2 = r2 - r1" "distinct new2" "extends M cg r1 (set cs) r2" by blast
  have sub: "r \<subseteq> r1" "r1 \<subseteq> r2" using s1(4) s2(4) by (simp_all add: extends_sub)
  have "foldl (add_indirect iter M cg) (r, wl) (c # cs) = (r2, wl @ (new1 @ new2))"
    using s1(1) s2(1) by simp
  moreover have "set (new1 @ new2) = r2 - r" using s1(2) s2(2) sub by auto
  moreover have "distinct (new1 @ new2)" using s1(2,3) s2(2,3) by auto
  moreover have "extends M cg r (set (c # cs)) r2"
    using extends_trans[OF s1(4) s2(4)] by simp
  ultimately show ?case by blast
qed

lemma finite_universe: "finite (\<Union>(ran ft)) \<Longrightarrow> finite (universe M cg ft)"
  by (simp add: universe_def finite_module_candidates finite_call_targets)

lemma worklist_loop_Nil: "worklist_loop iter M cg ft [] proc r = Some r"
  by (subst worklist_loop.simps) simp

lemma worklist_loop_skip:
  "F \<in> proc \<Longrightarrow> worklist_loop iter M cg ft (F # rest) proc r = worklist_loop iter M cg ft rest proc r"
  by (subst worklist_loop.simps) simp

lemma worklist_loop_scan:
  "F \<notin> proc \<Longrightarrow>
   foldl (add_indirect iter M cg) (r, rest) (iter (collect_indirectly_called_functions M F ft)) = (r', wl') \<Longrightarrow>
   worklist_loop iter M cg ft (F # rest) proc r = worklist_loop iter M cg ft wl' (insert F proc) r'"
  by (subst worklist_loop.simps) simp

lemma scan_step:
  assumes ord: "iteration_order iter" and fin: "finite (\<Union>(ran ft))"
  shows "\<exists>r' new.
     foldl (add_indirect iter M cg) (r, rest) (iter (collect_indirectly_called_functions M F ft))
       = (r', rest @ new)
     \<and> set new = r' - r \<and> distinct new
     \<and> extends M cg r (collect_indirectly_called_functions M F ft) r'
     \<and> length new + card (universe M cg ft - r') = card (universe M cg ft - r)"
proof -
  let ?C = "collect_indirectly_called_functions M F ft"
  let ?U = "universe M cg ft"
  have "finite ?C" using fin by (rule finite_indirectly_called)
  with ord have it: "set (iter ?C) = ?C" by (simp add: iteration_order_def)
  from foldl_add_indirect[OF ord, of M cg r rest "iter ?C"] obtain r' new where st:
    "foldl (add_indirect iter M cg) (r, rest) (iter ?C) = (r', rest @ new)"
    "set new = r' - r" "distinct new" "extends M cg r ?C r'"
    unfolding it by blast
  have rr': "r \<subseteq> r'" using st(4) by (rule extends_sub)
  have "r' \<subseteq> r \<union> ?U"
  proof (rule extends_least[OF st(4)])
    show "?C \<subseteq> r \<union> ?U" using indirectly_called_in_module[of M F ft] by (auto simp: universe_def)
    show "direct_closed M cg {} (r \<union> ?U)"
      by (rule direct_closed_superset_targets) (simp add: universe_def le_supI2)
  qed simp
  then have sub: "r' - r \<subseteq> ?U - r" by auto
  have finU: "finite (?U - r)" using finite_universe[OF fin] by simp
  have eq: "?U - r' = (?U - r) - (r' - r)" using rr' by auto
  have "card (?U - r') = card (?U - r) - card (r' - r)"
    unfolding eq using sub finU by (intro card_Diff_subset) (auto intro: finite_subset)
  moreover have "card (r' - r) \<le> card (?U - r)" using sub finU by (rule card_mono[rotated])
  moreover have "length new = card (r' - r)" using st(2,3) distinct_card by fastforce
  ultimately have "length new + card (?U - r') = card (?U - r)" by simp
  with st show ?thesis by blast
qed

lemma worklist_loop_result:
  assumes ord: "iteration_order iter" and fin: "finite (\<Union>(ran ft))"
  shows "\<exists>R. worklist_loop iter M cg ft wl proc r = Some R \<and> r \<subseteq> R
           \<and> (loop_inv M cg ft wl proc r \<longrightarrow>
                closed_set M cg ft R \<and> (\<forall>X. r \<subseteq> X \<and> closed_set M cg ft X \<longrightarrow> R \<subseteq> X))"
proof (induction "length wl + card (universe M cg ft - r)" arbitrary: wl proc r rule: less_induct)
  case less
  show ?case
  proof (cases wl)
    case Nil
    have "loop_inv M cg ft [] proc r \<longrightarrow> closed_set M cg ft r"
      by (auto simp: loop_inv_def closed_set_def)
    with Nil show ?thesis by (simp add: worklist_loop_Nil)
  next
    case (Cons F rest)
    show ?thesis
    proof (cases "F \<in> proc")
      case True
      have "length rest + card (universe M cg ft - r) < length wl + card (universe M cg ft - r)"
        using Cons by simp
      from less[OF this, of proc] obtain R where R:
        "worklist_loop iter M cg ft rest proc r = Some R" "r \<subseteq> R"
        "loop_inv M cg ft rest proc r \<longrightarrow>
           closed_set M cg ft R \<and> (\<forall>X. r \<subseteq> X \<and> closed_set M cg ft X \<longrightarrow> R \<subseteq> X)" by blast
      have "loop_inv M cg ft (F # rest) proc r \<Longrightarrow> loop_inv M cg ft rest proc r"
        using True by (auto simp: loop_inv_def)
      with R True Cons show ?thesis by (auto simp: worklist_loop_skip)
    next
      case False
      let ?C = "collect_indirectly_called_functions M F ft"
      from scan_step[OF ord fin, of M cg r rest F] obtain r' new where st:
        "foldl (add_indirect iter M cg) (r, rest) (iter ?C) = (r', rest @ new)"
        "set new = r' - r" "distinct new" "extends M cg r ?C r'"
        "length new + card (universe M cg ft - r') = card (universe M cg ft - r)" by blast
      have rr': "r \<subseteq> r'" using st(4) by (rule extends_sub)
      have "length (rest @ new) + card (universe M cg ft - r') < length wl + card (universe M cg ft - r)"
        using Cons st(5) by simp
      from less[OF this, of "insert F proc"] obtain R where R:
        "worklist_loop iter M cg ft (rest @ new) (insert F proc) r' = Some R" "r' \<subseteq> R"
        "loop_inv M cg ft (rest @ new) (insert F proc) r' \<longrightarrow>
           closed_set M cg ft R \<and> (\<forall>X. r' \<subseteq> X \<and> closed_set M cg ft X \<longrightarrow> R \<subseteq> X)" by blast
      have run: "worklist_loop iter M cg ft wl proc r = Some R"
        using worklist_loop_scan[OF False st(1)] R(1) Cons by simp
      have post: "closed_set M cg ft R \<and> (\<forall>X. r \<subseteq> X \<and> closed_set M cg ft X \<longrightarrow> R \<subseteq> X)"
        if inv: "loop_inv M cg ft wl proc r"
      proof -
        from inv Cons have i: "F \<in> r" "set rest \<subseteq> r" "r \<subseteq> insert F (proc \<union> set rest)"
          "\<forall>f\<in>proc. collect_indirectly_called_functions M f ft \<subseteq> r" "direct_closed M cg {} r"
          by (auto simp: loop_inv_def)
        have "loop_inv M cg ft (rest @ new) (insert F proc) r'"
          unfolding loop_inv_def
        proof (intro conjI ballI)
          show "set (rest @ new) \<subseteq> r'" using i(2) rr' st(2) by auto
          show "r' \<subseteq> insert F proc \<union> set (rest @ new)" using i(3) st(2) by auto
          show "direct_closed M cg {} r'" using st(4) i(5) by (rule extends_closed)
        next
          fix f assume "f \<in> insert F proc"
          then show "collect_indirectly_called_functions M f ft \<subseteq> r'"
            using extends_new[OF st(4)] i(4) rr' by auto
        qed
        with R(3) have c: "closed_set M cg ft R"
          and l: "\<And>X. r' \<subseteq> X \<Longrightarrow> closed_set M cg ft X \<Longrightarrow> R \<subseteq> X" by blast+
        have "R \<subseteq> X" if X: "r \<subseteq> X" "closed_set M cg ft X" for X
        proof -
          from X i(1) have "?C \<subseteq> X" by (auto simp: closed_set_def)
          with st(4) X have "r' \<subseteq> X" by (intro extends_least[OF st(4)]) (auto simp: closed_set_def)
          then show ?thesis using X(2) by (rule l)
        qed
        with c show ?thesis by blast
      qed
      from run R(2) rr' post show ?thesis by blast
    qed
  qed
qed

lemma getReachableFunctions_result:
  assumes ord: "iteration_order iter"
  shows "\<exists>R. getReachableFunctions iter M cg F = Some R
           \<and> collect_reachable_functions M cg (FunctionNode F) {} \<subseteq> R
           \<and> closed_set M cg (collect_function_types M) R
           \<and> (\<forall>X. collect_reachable_functions M cg (FunctionNode F) {} \<subseteq> X
                    \<and> closed_set M cg (collect_function_types M) X \<longrightarrow> R \<subseteq> X)"
proof -
  let ?seed = "collect_reachable_functions M cg (FunctionNode F) {}"
  let ?ft = "collect_function_types M"
  have "finite ?seed" by (rule walk_finite) simp
  with ord have it: "set (iter ?seed) = ?seed" by (simp add: iteration_order_def)
  have "direct_closed M cg {} ?seed" by (rule walk_closed)
  then have inv: "loop_inv M cg ?ft (iter ?seed) {} ?seed"
    by (simp add: loop_inv_def it)
  have "\<exists>R. worklist_loop iter M cg ?ft (iter ?seed) {} ?seed = Some R \<and> ?seed \<subseteq> R
           \<and> (loop_inv M cg ?ft (iter ?seed) {} ?seed \<longrightarrow>
                closed_set M cg ?ft R \<and> (\<forall>X. ?seed \<subseteq> X \<and> closed_set M cg ?ft X \<longrightarrow> R \<subseteq> X))"
    using ord finite_index by (rule worklist_loop_result)
  with inv show ?thesis
    by (simp add: getReachableFunctions_def collect_indirectly_reachable_functions_def Let_def)
qed

lemma iteration_order_sorted: "iteration_order sorted_list_of_set"
  by (simp add: iteration_order_def)

lemmas eval_defs = walk_simps getReachableFunctions_def collect_indirectly_reachable_functions_def
     worklist_loop.simps collect_function_types_def add_function_type_def isDeclaration_def blocks_of_def calledNodes_def
     collect_indirectly_called_functions_def scan_instruction_def get_indirect_called_functions_def get_functions_from_arguments_def
     add_callback_def add_indirect_def insert_and_enqueue_def

lemma example_result:
  "getReachableFunctions sorted_list_of_set example_module example_graph 0 = Some {0, 1, 2, 4, 5}"
  by (simp add: example_module_def example_graph_def eval_defs insert_commute)

lemma call_sites_iff:
  "cs \<in> set (call_sites M F) \<longleftrightarrow>
     (\<exists>B\<in>set (blocks_of M F). CallInst cs \<in> set B \<or> InvokeInst cs \<in> set B)"
proof -
  have "cs \<in> set (instruction_sites I) \<longleftrightarrow> I = CallInst cs \<or> I = InvokeInst cs" for I
    by (cases I) (auto simp: instruction_sites_def)
  then show ?thesis by (auto simp: call_sites_def block_sites_def)
qed

lemma call_site_candidates:
  assumes "cs \<in> set (call_sites M F)"
  shows "get_indirect_called_functions cs ft \<union> get_functions_from_arguments cs ft
           \<subseteq> collect_indirectly_called_functions M F ft"
proof -
  from assms obtain B I where BI: "B \<in> set (blocks_of M F)" "I \<in> set B"
    "I = CallInst cs \<or> I = InvokeInst cs" by (auto simp: call_sites_iff)
  then have "candidates ft I = get_indirect_called_functions cs ft \<union> get_functions_from_arguments cs ft"
    by (auto simp: candidates_CallInst)
  with BI(1,2) show ?thesis unfolding collect_indirectly_called_functions_eq by blast
qed

lemma call_sites_defined: "cs \<in> set (call_sites M F) \<Longrightarrow> \<not> isDeclaration M F"
  by (auto simp: call_sites_iff isDeclaration_def)

lemma recorded_call:
  assumes rec: "has_calls_to_definitions M cg" and cs: "cs \<in> set (call_sites M F)"
    and callee: "getCalledFunction cs = Some C" and body: "\<not> isDeclaration M C"
  shows "FunctionNode C \<in> set (calledNodes cg F)"
proof -
  from cs obtain fn where "map_of M F = Some fn"
    by (cases "map_of M F") (auto simp: call_sites_def blocks_of_def block_sites_def)
  then have "(F, fn) \<in> set M" by (rule map_of_SomeD)
  then have "F \<in> set (map fst M)" by force
  with rec cs have "case getCalledFunction cs of
                      None \<Rightarrow> True
                    | Some C \<Rightarrow> \<not> isDeclaration M C \<longrightarrow> FunctionNode C \<in> set (calledNodes cg F)"
    unfolding has_calls_to_definitions_def list_all_iff by blast
  with callee body show ?thesis by simp
qed

lemma visit_calls_foldl:
  "visit_calls M cg ns out = foldl (\<lambda>acc n. collect_reachable_functions M cg n acc) out ns"
  by (induction ns arbitrary: out) simp_all

lemma entry_in_seed:
  "\<not> isDeclaration M F \<Longrightarrow> F \<in> collect_reachable_functions M cg (FunctionNode F) {}"
  using walk_visits(1)[of M "FunctionNode F" cg "{}"] by simp

lemma seed_of_declaration:
  "isDeclaration M F \<Longrightarrow> collect_reachable_functions M cg (FunctionNode F) {} = {}"
  by (simp add: walk_simps)

lemma closed_set_empty: "closed_set M cg ft {}"
  by (simp add: closed_set_def direct_closed_def)

lemmas site_defs = call_sites_def block_sites_def instruction_sites_def blocks_of_def

lemma sparse_has_calls: "has_calls_to_definitions example_module sparse_graph"
  by (simp add: has_calls_to_definitions_def example_module_def sparse_graph_def site_defs
        isDeclaration_def calledNodes_def)

lemma sparse_lacks_declared_edge: "FunctionNode 3 \<notin> set (calledNodes sparse_graph 0)"
  by (simp add: sparse_graph_def calledNodes_def)

lemma sparse_result:
  "getReachableFunctions sorted_list_of_set example_module sparse_graph 0 = Some {0, 1, 2, 4, 5}"
  by (simp add: example_module_def sparse_graph_def eval_defs insert_commute)

lemma example_walk:
  "collect_reachable_functions example_module example_graph (FunctionNode 0) {} = {0, 5}"
  by (simp add: walk_simps example_module_def example_graph_def isDeclaration_def blocks_of_def
        calledNodes_def insert_commute)

lemma iteration_order_reversed: "iteration_order (\<lambda>S. rev (sorted_list_of_set S))"
  by (simp add: iteration_order_def)

lemma getFunction_None_iff:
  "getFunction M n = None \<longleftrightarrow> (\<forall>p\<in>set M. getName (snd p) \<noteq> n)"
proof -
  have "find (\<lambda>p. getName (snd p) = n) M = None \<longleftrightarrow> \<not> (\<exists>p. p \<in> set M \<and> getName (snd p) = n)"
    by (rule find_None_iff)
  then show ?thesis unfolding getFunction_def Ball_def by simp
qed

section \<open>The claims\<close>

subsection \<open>Declarations and the result\<close>

text \<open>
  C1. The claim is that no function without a body is ever a member of the set returned by
  \<open>getReachableFunctions\<close>. The direct walk tests \<open>isDeclaration\<close> before it inserts; the
  loop over \<open>indirectly_called\<close> inserts every candidate without that test. On the example
  module the query from \<open>main\<close> returns the declarations \<open>handler\<close> (1), a candidate of
  the indirect call by its type, and \<open>cleanup\<close> (2), passed as an argument.
\<close>

theorem declarations_in_result:
  "getReachableFunctions sorted_list_of_set example_module example_graph 0 = Some {0, 1, 2, 4, 5}
   \<and> isDeclaration example_module 1 \<and> isDeclaration example_module 2"
  using example_result by (simp add: isDeclaration_def blocks_of_def example_module_def)

subsection \<open>The signature index\<close>

text \<open>
  The index of the example module holds the declaration \<open>handler\<close> (1) under the type
  \<open>void ()\<close>, beside the definition \<open>helper\<close> (4).
\<close>

theorem index_holds_declaration:
  "collect_function_types example_module (FunctionTy VoidTy []) = Some {1, 4}
   \<and> isDeclaration example_module 1"
  by (simp add: example_module_def collect_function_types_def add_function_type_def
        isDeclaration_def blocks_of_def insert_commute)

text \<open>
  C2 (amended). The index maps each function type that occurs in the module to exactly the
  set of all functions of the module with that type, declarations included; a type of no
  function of the module has no entry.
\<close>

theorem collect_function_types_all_functions:
  "collect_function_types M ty =
     (if functions_of_type M ty = {} then None else Some (functions_of_type M ty))"
  by (rule collect_function_types_eq)

text \<open>The index of the example module at the type \<open>void ()\<close>.\<close>

theorem collect_function_types_all_functions_witness:
  "functions_of_type example_module (FunctionTy VoidTy []) = {1, 4}
   \<and> collect_function_types example_module (FunctionTy VoidTy []) = Some {1, 4}"
proof -
  have f: "functions_of_type example_module (FunctionTy VoidTy []) = {1, 4}"
    by (simp add: functions_of_type_def example_module_def)
  with collect_function_types_all_functions[of example_module "FunctionTy VoidTy []"]
  show ?thesis by simp
qed

subsection \<open>Closure under direct calls\<close>

text \<open>
  In the example, \<open>main\<close> is in the result and calls the declared \<open>on_exit\<close> (3)
  directly; \<open>on_exit\<close> is not in the result.
\<close>

theorem declared_callee_not_in_result:
  "getReachableFunctions sorted_list_of_set example_module example_graph 0 = Some {0, 1, 2, 4, 5}
   \<and> 0 \<in> {0, 1, 2, 4, 5::nat}
   \<and> \<lparr>getCalledFunction = Some 3,
        getFunctionType = FunctionTy (IntegerTy 32) [PointerTy (FunctionTy VoidTy [IntegerTy 32])],
        argOperands = [FunctionRef 2]\<rparr> \<in> set (call_sites example_module 0)
   \<and> 3 \<notin> {0, 1, 2, 4, 5::nat}"
  using example_result by (simp add: site_defs example_module_def)

text \<open>
  C3 (amended). The query returns, and for every function \<open>F\<close> of the result and every
  call site of \<open>F\<close> whose statically known callee \<open>C\<close> has a body, \<open>C\<close> is in the
  result. The walk reads the call graph it is given, so the graph is taken to have an edge
  for each call to a function with a body; edges for calls to declarations are not needed.
\<close>

theorem direct_closure_defined_callees:
  assumes "iteration_order iter" and "has_calls_to_definitions M cg"
  shows "\<exists>R. getReachableFunctions iter M cg entry = Some R
           \<and> (\<forall>F\<in>R. \<forall>cs\<in>set (call_sites M F). \<forall>C.
                 getCalledFunction cs = Some C \<and> \<not> isDeclaration M C \<longrightarrow> C \<in> R)"
proof -
  from getReachableFunctions_result[OF assms(1), of M cg entry] obtain R where
    R: "getReachableFunctions iter M cg entry = Some R"
    and cl: "closed_set M cg (collect_function_types M) R" by blast
  have "C \<in> R" if F: "F \<in> R" and cs: "cs \<in> set (call_sites M F)"
    and C: "getCalledFunction cs = Some C" "\<not> isDeclaration M C" for F cs C
  proof -
    have "\<not> isDeclaration M F" using cs by (rule call_sites_defined)
    with cl F have sub: "node_functions M (calledNodes cg F) \<subseteq> R"
      by (simp add: closed_set_def direct_closed_def)
    have "FunctionNode C \<in> set (calledNodes cg F)" using assms(2) cs C by (rule recorded_call)
    with C(2) have "C \<in> node_functions M (calledNodes cg F)" by (simp add: node_functions_def)
    with sub show ?thesis by blast
  qed
  with R show ?thesis by blast
qed

text \<open>
  On the graph without the edge to the declared \<open>on_exit\<close>: \<open>main\<close> invokes the defined
  \<open>compute\<close> (5), which is in the result.
\<close>

theorem direct_closure_defined_callees_witness:
  "iteration_order sorted_list_of_set \<and> has_calls_to_definitions example_module sparse_graph
   \<and> FunctionNode 3 \<notin> set (calledNodes sparse_graph 0)
   \<and> (\<exists>R. getReachableFunctions sorted_list_of_set example_module sparse_graph 0 = Some R
        \<and> 0 \<in> R
        \<and> \<lparr>getCalledFunction = Some 5, getFunctionType = FunctionTy (IntegerTy 32) [IntegerTy 32],
             argOperands = [OtherValue (IntegerTy 32)]\<rparr> \<in> set (call_sites example_module 0)
        \<and> \<not> isDeclaration example_module 5 \<and> 5 \<in> R)"
proof -
  let ?cs = "\<lparr>getCalledFunction = Some 5, getFunctionType = FunctionTy (IntegerTy 32) [IntegerTy 32],
             argOperands = [OtherValue (IntegerTy 32)]\<rparr>"
  from direct_closure_defined_callees[OF iteration_order_sorted sparse_has_calls, of 0]
  obtain R where R: "getReachableFunctions sorted_list_of_set example_module sparse_graph 0 = Some R"
    and cl: "\<forall>F\<in>R. \<forall>cs\<in>set (call_sites example_module F). \<forall>C.
                 getCalledFunction cs = Some C \<and> \<not> isDeclaration example_module C \<longrightarrow> C \<in> R"
    by blast
  have "R = {0, 1, 2, 4, 5}" using R sparse_result by simp
  then have 0: "0 \<in> R" by simp
  have cs: "?cs \<in> set (call_sites example_module 0)" by (simp add: site_defs example_module_def)
  have d: "\<not> isDeclaration example_module 5" by (simp add: isDeclaration_def blocks_of_def example_module_def)
  have "5 \<in> R" using cl 0 cs d by fastforce
  with R 0 cs d iteration_order_sorted sparse_has_calls sparse_lacks_declared_edge
  show ?thesis by blast
qed

subsection \<open>Closure under indirect calls\<close>

text \<open>
  C4. The query returns, and for every function \<open>F\<close> of the result and every call site of
  \<open>F\<close> without a statically known callee, every function of the module that has a body
  and the called type of the call site is in the result.
\<close>

theorem indirect_closure:
  assumes "iteration_order iter"
  shows "\<exists>R. getReachableFunctions iter M cg entry = Some R
           \<and> (\<forall>F\<in>R. \<forall>cs\<in>set (call_sites M F). getCalledFunction cs = None \<longrightarrow>
                 (\<forall>p\<in>set M. fnType (snd p) = getFunctionType cs \<and> blocks (snd p) \<noteq> []
                    \<longrightarrow> fst p \<in> R))"
proof -
  let ?ft = "collect_function_types M"
  from getReachableFunctions_result[OF assms, of M cg entry] obtain R where
    R: "getReachableFunctions iter M cg entry = Some R"
    and cl: "closed_set M cg ?ft R" by blast
  have "fst p \<in> R" if F: "F \<in> R" and cs: "cs \<in> set (call_sites M F)"
    and ind: "getCalledFunction cs = None" and p: "p \<in> set M" "fnType (snd p) = getFunctionType cs"
    for F cs p
  proof -
    from p have mem: "fst p \<in> functions_of_type M (getFunctionType cs)"
      by (auto simp: functions_of_type_def)
    then have "?ft (getFunctionType cs) = Some (functions_of_type M (getFunctionType cs))"
      by (auto simp: collect_function_types_eq)
    with ind mem have "fst p \<in> get_indirect_called_functions cs ?ft"
      by (simp add: get_indirect_called_functions_def)
    with call_site_candidates[OF cs, of ?ft]
    have "fst p \<in> collect_indirectly_called_functions M F ?ft" by blast
    with cl F show ?thesis unfolding closed_set_def by blast
  qed
  with R show ?thesis by blast
qed

text \<open>
  In the example, \<open>main\<close> makes an indirect call of type \<open>void ()\<close>, and the defined
  \<open>helper\<close> (4) of that type is in the result.
\<close>

theorem indirect_closure_witness:
  "iteration_order sorted_list_of_set
   \<and> (\<exists>R. getReachableFunctions sorted_list_of_set example_module example_graph 0 = Some R
        \<and> 0 \<in> R
        \<and> \<lparr>getCalledFunction = None, getFunctionType = FunctionTy VoidTy [],
             argOperands = []\<rparr> \<in> set (call_sites example_module 0)
        \<and> (4, \<lparr>getName = ''helper'', fnType = FunctionTy VoidTy [], blocks = [[OtherInst]]\<rparr>)
             \<in> set example_module
        \<and> 4 \<in> R)"
proof -
  let ?cs = "\<lparr>getCalledFunction = None, getFunctionType = FunctionTy VoidTy [], argOperands = []\<rparr>"
  let ?p = "(4::nat, \<lparr>getName = ''helper'', fnType = FunctionTy VoidTy [], blocks = [[OtherInst]]\<rparr>)"
  from indirect_closure[OF iteration_order_sorted, of example_module example_graph 0]
  obtain R where R: "getReachableFunctions sorted_list_of_set example_module example_graph 0 = Some R"
    and cl: "\<forall>F\<in>R. \<forall>cs\<in>set (call_sites example_module F). getCalledFunction cs = None \<longrightarrow>
                 (\<forall>p\<in>set example_module. fnType (snd p) = getFunctionType cs \<and> blocks (snd p) \<noteq> []
                    \<longrightarrow> fst p \<in> R)"
    by blast
  have "R = {0, 1, 2, 4, 5}" using R example_result by simp
  then have 0: "0 \<in> R" by simp
  have cs: "?cs \<in> set (call_sites example_module 0)" by (simp add: site_defs example_module_def)
  have p: "?p \<in> set example_module" by (simp add: example_module_def)
  from cl 0 cs have "\<forall>p\<in>set example_module. fnType (snd p) = getFunctionType ?cs \<and> blocks (snd p) \<noteq> []
                    \<longrightarrow> fst p \<in> R" by fastforce
  with p have "fst ?p \<in> R" by fastforce
  then have "4 \<in> R" by simp
  with R 0 cs p iteration_order_sorted show ?thesis by blast
qed

subsection \<open>The result contains the direct walk\<close>

text \<open>
  C5. The query returns a superset of the set that the direct walk alone produces from the
  entry, and the worklist phase returns a superset of the set it is given: it only adds.
\<close>

theorem result_contains_direct_walk:
  assumes "iteration_order iter"
  shows "(\<exists>R. getReachableFunctions iter M cg F = Some R
            \<and> collect_reachable_functions M cg (FunctionNode F) {} \<subseteq> R)
         \<and> (\<exists>R. collect_indirectly_reachable_functions iter M cg reachable_functions
                   (collect_function_types M) = Some R
                \<and> reachable_functions \<subseteq> R)"
proof
  from getReachableFunctions_result[OF assms, of M cg F]
  show "\<exists>R. getReachableFunctions iter M cg F = Some R
            \<and> collect_reachable_functions M cg (FunctionNode F) {} \<subseteq> R" by blast
  have "\<exists>R. worklist_loop iter M cg (collect_function_types M) (iter reachable_functions) {}
               reachable_functions = Some R \<and> reachable_functions \<subseteq> R
           \<and> (loop_inv M cg (collect_function_types M) (iter reachable_functions) {} reachable_functions \<longrightarrow>
                closed_set M cg (collect_function_types M) R
                \<and> (\<forall>X. reachable_functions \<subseteq> X \<and> closed_set M cg (collect_function_types M) X \<longrightarrow> R \<subseteq> X))"
    using assms finite_index by (rule worklist_loop_result)
  then show "\<exists>R. collect_indirectly_reachable_functions iter M cg reachable_functions
                   (collect_function_types M) = Some R \<and> reachable_functions \<subseteq> R"
    unfolding collect_indirectly_reachable_functions_def by blast
qed

text \<open>The direct walk from \<open>main\<close> gives \<open>main\<close> and \<open>compute\<close>, both in the result.\<close>

theorem result_contains_direct_walk_witness:
  "iteration_order sorted_list_of_set
   \<and> collect_reachable_functions example_module example_graph (FunctionNode 0) {} = {0, 5}
   \<and> (\<exists>R. getReachableFunctions sorted_list_of_set example_module example_graph 0 = Some R
        \<and> {0, 5} \<subseteq> R)"
  using conjunct1[OF result_contains_direct_walk[OF iteration_order_sorted,
          of example_module example_graph 0]]
    iteration_order_sorted example_walk
  by simp

subsection \<open>The branches of the direct walk\<close>

text \<open>
  C6. \<open>collect_reachable_functions\<close> returns the set unchanged exactly when the node is
  null, the node has no function, the function is a declaration or the function is already
  in the set. Otherwise it inserts the function and visits every call record of the node in
  turn, each with the set left by the one before; the function and the defined callees are
  then in the result, and every function that the walk inserts has its defined callees in
  the result. The walk is a total function: its recursion ends by the guard on the set,
  as every insertion of a function of the graph lowers the number of graph functions
  outside the set.
\<close>

theorem collect_reachable_functions_branches:
  "(collect_reachable_functions M cg callNode out = out \<longleftrightarrow>
      callNode = NullNode \<or> callNode = ExternalNode
      \<or> (\<exists>F. callNode = FunctionNode F \<and> (isDeclaration M F \<or> F \<in> out)))
   \<and> (\<forall>F. callNode = FunctionNode F \<and> \<not> isDeclaration M F \<and> F \<notin> out \<longrightarrow>
          collect_reachable_functions M cg callNode out
            = foldl (\<lambda>acc n. collect_reachable_functions M cg n acc) (insert F out) (calledNodes cg F)
          \<and> F \<in> collect_reachable_functions M cg callNode out
          \<and> node_functions M (calledNodes cg F) \<subseteq> collect_reachable_functions M cg callNode out
          \<and> (F \<in> graph_functions cg \<longrightarrow> unvisited cg (insert F out) < unvisited cg out))
   \<and> direct_closed M cg out (collect_reachable_functions M cg callNode out)"
proof (intro conjI allI impI)
  show "direct_closed M cg out (collect_reachable_functions M cg callNode out)"
    by (rule walk_closed)
next
  fix F assume a: "callNode = FunctionNode F \<and> \<not> isDeclaration M F \<and> F \<notin> out"
  then have eq: "collect_reachable_functions M cg callNode out
                   = visit_calls M cg (calledNodes cg F) (insert F out)"
    by (simp add: walk_simps)
  then show "collect_reachable_functions M cg callNode out
            = foldl (\<lambda>acc n. collect_reachable_functions M cg n acc) (insert F out) (calledNodes cg F)"
    by (simp add: visit_calls_foldl)
  have "insert F out \<subseteq> visit_calls M cg (calledNodes cg F) (insert F out)" by (rule walk_grows)
  with eq show "F \<in> collect_reachable_functions M cg callNode out" by simp
  show "node_functions M (calledNodes cg F) \<subseteq> collect_reachable_functions M cg callNode out"
    unfolding eq by (rule walk_visits)
  show "unvisited cg (insert F out) < unvisited cg out" if "F \<in> graph_functions cg"
    using that a by (simp add: unvisited_insert)
next
  show "collect_reachable_functions M cg callNode out = out \<longleftrightarrow>
      callNode = NullNode \<or> callNode = ExternalNode
      \<or> (\<exists>F. callNode = FunctionNode F \<and> (isDeclaration M F \<or> F \<in> out))"
  proof (cases callNode)
    case (FunctionNode F)
    show ?thesis
    proof (cases "isDeclaration M F \<or> F \<in> out")
      case True
      with FunctionNode show ?thesis by (auto simp: walk_simps)
    next
      case False
      have "insert F out \<subseteq> visit_calls M cg (calledNodes cg F) (insert F out)" by (rule walk_grows)
      with False have "visit_calls M cg (calledNodes cg F) (insert F out) \<noteq> out" by blast
      with False FunctionNode show ?thesis by (simp add: walk_simps)
    qed
  qed (simp_all add: walk_simps)
qed

text \<open>
  \<open>ping\<close> (6) and \<open>pong\<close> (7) call each other: the walk from \<open>ping\<close> returns, with
  both in the result, and a second visit of \<open>ping\<close> returns at once.
\<close>

theorem collect_reachable_functions_branches_witness:
  "collect_reachable_functions example_module example_graph (FunctionNode 6) {6} = {6}
   \<and> \<not> isDeclaration example_module 6 \<and> 6 \<notin> ({}::nat set)
   \<and> collect_reachable_functions example_module example_graph (FunctionNode 6) {} \<noteq> {}
   \<and> collect_reachable_functions example_module example_graph (FunctionNode 6) {}
       = foldl (\<lambda>acc n. collect_reachable_functions example_module example_graph n acc) {6}
           [FunctionNode 7]
   \<and> 6 \<in> collect_reachable_functions example_module example_graph (FunctionNode 6) {}
   \<and> 7 \<in> collect_reachable_functions example_module example_graph (FunctionNode 6) {}
   \<and> 6 \<in> graph_functions example_graph
   \<and> unvisited example_graph {6} < unvisited example_graph {}"
proof -
  have d: "\<not> isDeclaration example_module 6" "\<not> isDeclaration example_module 7"
    by (simp_all add: isDeclaration_def blocks_of_def example_module_def)
  have c: "calledNodes example_graph 6 = [FunctionNode 7]"
    by (simp add: calledNodes_def example_graph_def)
  note t1 = collect_reachable_functions_branches[of example_module example_graph "FunctionNode 6" "{6}"]
  note t2 = collect_reachable_functions_branches[of example_module example_graph "FunctionNode 6" "{}"]
  have 1: "collect_reachable_functions example_module example_graph (FunctionNode 6) {6} = {6}"
    using conjunct1[OF t1] by simp
  have 2: "collect_reachable_functions example_module example_graph (FunctionNode 6) {} \<noteq> {}"
    using conjunct1[OF t2] d by simp
  have p: "FunctionNode 6 = FunctionNode 6 \<and> \<not> isDeclaration example_module 6 \<and> 6 \<notin> ({}::nat set)"
    using d by simp
  note r3 = mp[OF spec[OF conjunct1[OF conjunct2[OF t2]], of 6] p, unfolded c]
  have "7 \<in> node_functions example_module [FunctionNode 7]" using d by simp
  with r3 have 4: "7 \<in> collect_reachable_functions example_module example_graph (FunctionNode 6) {}"
    by blast
  note r3a = conjunct1[OF r3] and r3b = conjunct1[OF conjunct2[OF r3]]
  have e: "6 \<notin> ({}::nat set)" by simp
  have g: "6 \<in> graph_functions example_graph"
    by (simp add: graph_functions_def example_graph_def)
  note r3d = mp[OF conjunct2[OF conjunct2[OF conjunct2[OF r3]]] g]
  from 1 d(1) e 2 r3a r3b 4 g r3d show ?thesis by (intro conjI)
qed

subsection \<open>Termination of the worklist loop\<close>

text \<open>
  C7. For every iteration order of the sets and every index with finitely many functions,
  the worklist loop returns from every state, with a superset of the reachable set it
  started from. A function at the head of the queue that is already processed is dropped
  without a scan. Otherwise it is marked processed, the reachable set grows by its
  candidates and what the direct walk reaches from them, and the queue gets exactly the
  functions newly inserted, each once; the length of the queue plus the number of
  functions of a finite universe outside the reachable set drops by one.
\<close>

theorem worklist_loop_terminates:
  assumes "iteration_order iter" and "finite (\<Union>(ran functionTypes))"
  shows "(\<exists>R. collect_indirectly_reachable_functions iter M cg reachable_functions functionTypes = Some R
            \<and> reachable_functions \<subseteq> R)
       \<and> (\<exists>R. worklist_loop iter M cg functionTypes working_list processed_functions reachable_functions
                 = Some R \<and> reachable_functions \<subseteq> R)
       \<and> (F \<in> processed_functions \<longrightarrow>
            worklist_loop iter M cg functionTypes (F # rest) processed_functions reachable_functions
              = worklist_loop iter M cg functionTypes rest processed_functions reachable_functions)
       \<and> (F \<notin> processed_functions \<longrightarrow>
            (\<exists>reachable' new.
               worklist_loop iter M cg functionTypes (F # rest) processed_functions reachable_functions
                 = worklist_loop iter M cg functionTypes (rest @ new) (insert F processed_functions) reachable'
               \<and> reachable_functions \<subseteq> reachable'
               \<and> collect_indirectly_called_functions M F functionTypes \<subseteq> reachable'
               \<and> set new = reachable' - reachable_functions \<and> distinct new
               \<and> length new + card (universe M cg functionTypes - reachable')
                    = card (universe M cg functionTypes - reachable_functions)))"
proof (intro conjI impI)
  have run: "\<exists>R. worklist_loop iter M cg functionTypes wl proc r = Some R \<and> r \<subseteq> R" for wl proc r
    using worklist_loop_result[OF assms, of M cg wl proc r] by blast
  show "\<exists>R. collect_indirectly_reachable_functions iter M cg reachable_functions functionTypes = Some R
            \<and> reachable_functions \<subseteq> R"
    unfolding collect_indirectly_reachable_functions_def by (rule run)
  show "\<exists>R. worklist_loop iter M cg functionTypes working_list processed_functions reachable_functions
                 = Some R \<and> reachable_functions \<subseteq> R"
    by (rule run)
next
  assume "F \<in> processed_functions"
  then show "worklist_loop iter M cg functionTypes (F # rest) processed_functions reachable_functions
              = worklist_loop iter M cg functionTypes rest processed_functions reachable_functions"
    by (rule worklist_loop_skip)
next
  assume F: "F \<notin> processed_functions"
  let ?C = "collect_indirectly_called_functions M F functionTypes"
  from scan_step[OF assms, of M cg reachable_functions rest F] obtain r' new where st:
    "foldl (add_indirect iter M cg) (reachable_functions, rest) (iter ?C) = (r', rest @ new)"
    "set new = r' - reachable_functions" "distinct new" "extends M cg reachable_functions ?C r'"
    "length new + card (universe M cg functionTypes - r')
       = card (universe M cg functionTypes - reachable_functions)" by blast
  from worklist_loop_scan[OF F st(1)] extends_sub[OF st(4)] extends_new[OF st(4)] st(2,3,5)
  show "\<exists>reachable' new.
               worklist_loop iter M cg functionTypes (F # rest) processed_functions reachable_functions
                 = worklist_loop iter M cg functionTypes (rest @ new) (insert F processed_functions) reachable'
               \<and> reachable_functions \<subseteq> reachable'
               \<and> collect_indirectly_called_functions M F functionTypes \<subseteq> reachable'
               \<and> set new = reachable' - reachable_functions \<and> distinct new
               \<and> length new + card (universe M cg functionTypes - reachable')
                    = card (universe M cg functionTypes - reachable_functions)"
    by blast
qed

text \<open>The loop on the example, started from the direct walk \<open>{main, compute}\<close>.\<close>

theorem worklist_loop_terminates_witness:
  "iteration_order sorted_list_of_set
   \<and> finite (\<Union>(ran (collect_function_types example_module)))
   \<and> (\<exists>R. collect_indirectly_reachable_functions sorted_list_of_set example_module example_graph
             {0, 5} (collect_function_types example_module) = Some R \<and> {0, 5} \<subseteq> R)
   \<and> 0 \<in> {0::nat}
   \<and> worklist_loop sorted_list_of_set example_module example_graph
         (collect_function_types example_module) (0 # [5]) {0} {0, 5}
       = worklist_loop sorted_list_of_set example_module example_graph
           (collect_function_types example_module) [5] {0} {0, 5}
   \<and> 0 \<notin> ({}::nat set)
   \<and> (\<exists>reachable' new.
         worklist_loop sorted_list_of_set example_module example_graph
           (collect_function_types example_module) (0 # [5]) {} {0, 5}
         = worklist_loop sorted_list_of_set example_module example_graph
             (collect_function_types example_module) ([5] @ new) (insert 0 {}) reachable'
         \<and> {0, 5} \<subseteq> reachable' \<and> set new = reachable' - {0, 5} \<and> distinct new)"
proof -
  note ord = iteration_order_sorted
  note fin = finite_index[of example_module]
  note t1 = worklist_loop_terminates[OF ord fin, of example_module example_graph "{0, 5}"
              "[]" "{0}" 0 "[5]"]
  note t2 = worklist_loop_terminates[OF ord fin, of example_module example_graph "{0, 5}"
              "[]" "{}" 0 "[5]"]
  have a: "0 \<in> {0::nat}" and b: "0 \<notin> ({}::nat set)" by simp_all
  note r1 = conjunct1[OF t1]
  note r2 = mp[OF conjunct1[OF conjunct2[OF conjunct2[OF t1]]] a]
  from mp[OF conjunct2[OF conjunct2[OF conjunct2[OF t2]]] b]
  have r3: "\<exists>reachable' new.
         worklist_loop sorted_list_of_set example_module example_graph
           (collect_function_types example_module) (0 # [5]) {} {0, 5}
         = worklist_loop sorted_list_of_set example_module example_graph
             (collect_function_types example_module) ([5] @ new) (insert 0 {}) reachable'
         \<and> {0, 5} \<subseteq> reachable' \<and> set new = reachable' - {0, 5} \<and> distinct new"
    by blast
  from ord fin r1 a r2 b r3 show ?thesis by (intro conjI)
qed

subsection \<open>The pass without \<open>main\<close>\<close>

text \<open>
  C8. \<open>getFunction\<close> finds no function exactly when the module has no function of that
  name. When the module has no \<open>main\<close>, \<open>runOnModule\<close> returns \<open>false\<close> and writes only
  the line that reports it: no reachable set is computed. When \<open>main\<close> exists the query
  returns a set, and \<open>runOnModule\<close> returns \<open>false\<close> after listing it.
\<close>

theorem runOnModule_no_main:
  "(getFunction M ''main'' = None \<longleftrightarrow> (\<forall>p\<in>set M. getName (snd p) \<noteq> ''main''))
   \<and> (getFunction M ''main'' = None \<longrightarrow>
        runOnModule iter M CG = Some (False, [''No function main'']))
   \<and> (iteration_order iter \<longrightarrow>
        (\<forall>mainF. getFunction M ''main'' = Some mainF \<longrightarrow>
           (\<exists>R. getReachableFunctions iter M CG mainF = Some R
                \<and> runOnModule iter M CG = Some (False, report iter M R))))"
proof (intro conjI impI allI)
  show "getFunction M ''main'' = None \<longleftrightarrow> (\<forall>p\<in>set M. getName (snd p) \<noteq> ''main'')"
    by (rule getFunction_None_iff)
next
  assume "getFunction M ''main'' = None"
  then show "runOnModule iter M CG = Some (False, [''No function main''])"
    by (simp add: runOnModule_def)
next
  fix mainF
  assume ord: "iteration_order iter" and m: "getFunction M ''main'' = Some mainF"
  from getReachableFunctions_result[OF ord, of M CG mainF] obtain R where
    R: "getReachableFunctions iter M CG mainF = Some R" by blast
  with m have "runOnModule iter M CG = Some (False, report iter M R)"
    by (simp add: runOnModule_def)
  with R show "\<exists>R. getReachableFunctions iter M CG mainF = Some R
                \<and> runOnModule iter M CG = Some (False, report iter M R)" by blast
qed

text \<open>The example module without its first function, \<open>main\<close>, and with it.\<close>

theorem runOnModule_no_main_witness:
  "getFunction (tl example_module) ''main'' = None
   \<and> runOnModule sorted_list_of_set (tl example_module) example_graph
       = Some (False, [''No function main''])
   \<and> iteration_order sorted_list_of_set
   \<and> getFunction example_module ''main'' = Some 0
   \<and> runOnModule sorted_list_of_set example_module example_graph
       = Some (False,
               [''Function reachable from main are'',
                ''+++main'', ''+++handler'', ''+++cleanup'', ''+++helper'', ''+++compute'',
                ''Non reachable functions'', ''---ping'', ''---pong''])"
proof -
  note t1 = runOnModule_no_main[of "tl example_module" sorted_list_of_set example_graph]
  note t2 = runOnModule_no_main[of example_module sorted_list_of_set example_graph]
  have n: "getFunction (tl example_module) ''main'' = None"
    by (simp add: getFunction_def example_module_def)
  note r1 = mp[OF conjunct1[OF conjunct2[OF t1]] n]
  have m: "getFunction example_module ''main'' = Some 0"
    by (simp add: getFunction_def example_module_def)
  from mp[OF spec[OF mp[OF conjunct2[OF conjunct2[OF t2]] iteration_order_sorted], of 0] m]
  obtain R where R: "getReachableFunctions sorted_list_of_set example_module example_graph 0 = Some R"
    "runOnModule sorted_list_of_set example_module example_graph
       = Some (False, report sorted_list_of_set example_module R)" by blast
  from R(1) example_result have Req: "R = {0, 1, 2, 4, 5}" by simp
  have "report sorted_list_of_set example_module {0, 1, 2, 4, 5}
          = [''Function reachable from main are'',
                ''+++main'', ''+++handler'', ''+++cleanup'', ''+++helper'', ''+++compute'',
                ''Non reachable functions'', ''---ping'', ''---pong'']"
    by (simp add: report_def name_of_def example_module_def)
  with R(2) Req have r2: "runOnModule sorted_list_of_set example_module example_graph
       = Some (False,
               [''Function reachable from main are'',
                ''+++main'', ''+++handler'', ''+++cleanup'', ''+++helper'', ''+++compute'',
                ''Non reachable functions'', ''---ping'', ''---pong''])" by simp
  from n r1 iteration_order_sorted m r2 show ?thesis by (intro conjI)
qed

subsection \<open>Independence of the iteration order\<close>

text \<open>
  C9. The query reads the module and the call graph and writes neither; what can differ
  between two calls is the order in which the hash sets are iterated. For any two iteration
  orders the query returns, and returns the same set.
\<close>

theorem getReachableFunctions_order_independent:
  assumes "iteration_order iter1" and "iteration_order iter2"
  shows "\<exists>R. getReachableFunctions iter1 M cg F = Some R
           \<and> getReachableFunctions iter2 M cg F = Some R"
proof -
  let ?seed = "collect_reachable_functions M cg (FunctionNode F) {}"
  let ?ft = "collect_function_types M"
  from getReachableFunctions_result[OF assms(1), of M cg F] obtain R1 where
    R1: "getReachableFunctions iter1 M cg F = Some R1" "?seed \<subseteq> R1" "closed_set M cg ?ft R1"
    and l1: "\<And>X. ?seed \<subseteq> X \<Longrightarrow> closed_set M cg ?ft X \<Longrightarrow> R1 \<subseteq> X" by blast
  from getReachableFunctions_result[OF assms(2), of M cg F] obtain R2 where
    R2: "getReachableFunctions iter2 M cg F = Some R2" "?seed \<subseteq> R2" "closed_set M cg ?ft R2"
    and l2: "\<And>X. ?seed \<subseteq> X \<Longrightarrow> closed_set M cg ?ft X \<Longrightarrow> R2 \<subseteq> X" by blast
  have "R1 \<subseteq> R2" using R2(2,3) by (rule l1)
  moreover have "R2 \<subseteq> R1" using R1(2,3) by (rule l2)
  ultimately have "R1 = R2" by (rule equalityI)
  with R1(1) R2(1) show ?thesis by simp
qed

text \<open>Ascending and descending order of the addresses give the same result on the example.\<close>

theorem getReachableFunctions_order_independent_witness:
  "iteration_order sorted_list_of_set \<and> iteration_order (\<lambda>S. rev (sorted_list_of_set S))
   \<and> sorted_list_of_set {0, 5::nat} \<noteq> rev (sorted_list_of_set {0, 5::nat})
   \<and> getReachableFunctions sorted_list_of_set example_module example_graph 0 = Some {0, 1, 2, 4, 5}
   \<and> getReachableFunctions (\<lambda>S. rev (sorted_list_of_set S)) example_module example_graph 0
       = Some {0, 1, 2, 4, 5}"
proof -
  from getReachableFunctions_order_independent[OF iteration_order_sorted iteration_order_reversed,
         of example_module example_graph 0]
  obtain R where R: "getReachableFunctions sorted_list_of_set example_module example_graph 0 = Some R"
    "getReachableFunctions (\<lambda>S. rev (sorted_list_of_set S)) example_module example_graph 0 = Some R"
    by blast
  from R(1) example_result have "R = {0, 1, 2, 4, 5}" by simp
  with R(2) have "getReachableFunctions (\<lambda>S. rev (sorted_list_of_set S)) example_module example_graph 0
       = Some {0, 1, 2, 4, 5}" by simp
  moreover have "sorted_list_of_set {0, 5::nat} \<noteq> rev (sorted_list_of_set {0, 5::nat})" by simp
  ultimately show ?thesis
    using iteration_order_sorted iteration_order_reversed example_result by (intro conjI)
qed

subsection \<open>The entry function\<close>

text \<open>
  C10. The query returns a set that contains the entry function if and only if the entry
  function has a body; for a declared entry the result is empty.
\<close>

theorem entry_in_result_iff_defined:
  assumes "iteration_order iter"
  shows "\<exists>R. getReachableFunctions iter M cg entry = Some R
           \<and> (entry \<in> R \<longleftrightarrow> \<not> isDeclaration M entry)
           \<and> (isDeclaration M entry \<longrightarrow> R = {})"
proof -
  let ?seed = "collect_reachable_functions M cg (FunctionNode entry) {}"
  let ?ft = "collect_function_types M"
  from getReachableFunctions_result[OF assms, of M cg entry] obtain R where
    R: "getReachableFunctions iter M cg entry = Some R" "?seed \<subseteq> R"
    and least: "\<And>X. ?seed \<subseteq> X \<Longrightarrow> closed_set M cg ?ft X \<Longrightarrow> R \<subseteq> X" by blast
  have 1: "entry \<in> R" if "\<not> isDeclaration M entry"
    using entry_in_seed[OF that, of cg] R(2) by blast
  have 2: "R = {}" if d: "isDeclaration M entry"
  proof -
    have "?seed \<subseteq> {}" using seed_of_declaration[OF d, of cg] by simp
    then have "R \<subseteq> {}" using closed_set_empty by (rule least)
    then show ?thesis by simp
  qed
  from R(1) 1 2 show ?thesis by blast
qed

text \<open>The queries from \<open>main\<close> (0) and from the declaration \<open>handler\<close> (1).\<close>

theorem entry_in_result_iff_defined_witness:
  "iteration_order sorted_list_of_set
   \<and> \<not> isDeclaration example_module 0
   \<and> (\<exists>R. getReachableFunctions sorted_list_of_set example_module example_graph 0 = Some R \<and> 0 \<in> R)
   \<and> isDeclaration example_module 1
   \<and> getReachableFunctions sorted_list_of_set example_module example_graph 1 = Some {}"
proof -
  have d0: "\<not> isDeclaration example_module 0" and d1: "isDeclaration example_module 1"
    by (simp_all add: isDeclaration_def blocks_of_def example_module_def)
  from entry_in_result_iff_defined[OF iteration_order_sorted, of example_module example_graph 0] d0
  have a: "\<exists>R. getReachableFunctions sorted_list_of_set example_module example_graph 0 = Some R \<and> 0 \<in> R"
    by blast
  from entry_in_result_iff_defined[OF iteration_order_sorted, of example_module example_graph 1] d1
  have b: "getReachableFunctions sorted_list_of_set example_module example_graph 1 = Some {}"
    by blast
  from iteration_order_sorted d0 a d1 b show ?thesis by (intro conjI)
qed

end
